theory Spec2Isabelle
  imports Main
begin

section \<open>Annotated tokens and parsed sentences\<close>

text \<open>
  The classifier of \<^verbatim>\<open>grammer.py\<close> (class \<^verbatim>\<open>FinalGrammarAnalyzer\<close>) reads a parsed
  sentence, the \<^verbatim>\<open>doc\<close> that the external parser returns. Of each token it reads
  \<^verbatim>\<open>text\<close>, \<^verbatim>\<open>pos_\<close>, \<^verbatim>\<open>tag_\<close>, \<^verbatim>\<open>dep_\<close>, \<^verbatim>\<open>i\<close>, \<^verbatim>\<open>head\<close>, \<^verbatim>\<open>children\<close> and
  \<^verbatim>\<open>morph.get("Number")\<close>. The token type belongs to the parser library; it is modelled
  by the fields of the data model in section 3 of the specification: the head is kept as the
  position of the governing token (\<open>headIndex\<close>), and the value of
  \<^verbatim>\<open>morph.get("Number")\<close> as a list of strings, empty when the feature is absent.
\<close>

record token =
  tok_text :: string
  tok_pos :: string
  tok_tag :: string
  tok_dep :: string
  tok_i :: int
  tok_head :: int
  tok_number :: "string list"

type_synonym doc = "token list"

datatype error = IndexError

text \<open>
  \<^verbatim>\<open>doc[k]\<close>: an index from \<open>0\<close> to \<open>len(doc) - 1\<close> reads that position, a negative one
  from \<open>-len(doc)\<close> counts from the end, anything else raises \<^verbatim>\<open>IndexError\<close>.
\<close>

definition doc_getitem :: "doc \<Rightarrow> int \<Rightarrow> error + token" where
  "doc_getitem doc k =
     (let n = int (length doc) in
      if 0 \<le> k \<and> k < n then Inr (doc ! nat k)
      else if - n \<le> k \<and> k < 0 then Inr (doc ! nat (n + k))
      else Inl IndexError)"

text \<open>
  \<^verbatim>\<open>str.lower()\<close>. Texts are byte strings here, and only the letters \<open>A\<close> to \<open>Z\<close> change;
  every word the rules compare a lowered text with is made of ASCII letters and the
  apostrophe.
\<close>

definition lower_char :: "char \<Rightarrow> char" where
  "lower_char c =
     (case map_of (zip ''ABCDEFGHIJKLMNOPQRSTUVWXYZ'' ''abcdefghijklmnopqrstuvwxyz'') c of
        Some d \<Rightarrow> d
      | None \<Rightarrow> c)"

definition lower :: "string \<Rightarrow> string" where
  "lower s = map lower_char s"

text \<open>\<^verbatim>\<open>needle in hay\<close> on strings: \<open>needle\<close> occurs in \<open>hay\<close> as a contiguous piece.\<close>

fun starts_with :: "string \<Rightarrow> string \<Rightarrow> bool" where
  "starts_with [] hay = True"
| "starts_with (c # cs) [] = False"
| "starts_with (c # cs) (d # ds) = (c = d \<and> starts_with cs ds)"

fun str_contains :: "string \<Rightarrow> string \<Rightarrow> bool" where
  "str_contains needle [] = (needle = [])"
| "str_contains needle (d # ds) = (starts_with needle (d # ds) \<or> str_contains needle ds)"

text \<open>\<^verbatim>\<open>token.pos_ in ["VERB", "AUX"]\<close>, the test shared by the tense, voice and structure passes.\<close>

definition is_verb_token :: "token \<Rightarrow> bool" where
  "is_verb_token token = (tok_pos token \<in> set [''VERB'', ''AUX''])"

section \<open>Results\<close>

text \<open>
  The source returns Korean string literals. They are named here by the categories of the
  specification, in the order in which \<^verbatim>\<open>_analyze_tense\<close> returns them; \<open>Unknown\<close> is the
  final \<^verbatim>\<open>return\<close> of that function.
\<close>

datatype tense =
    PresentPerfectProgressive
  | PastPerfectProgressive
  | PresentProgressive
  | PastProgressive
  | PresentPerfect
  | PastPerfect
  | PresentPassive
  | PastPassive
  | SimplePast
  | SimplePresent
  | Unknown

datatype voice = Passive | Active

datatype clause_structure = SVO | SV | Other

record analysis =
  res_tense :: tense
  res_voice :: voice
  res_structure :: clause_structure
  res_agreement :: bool
  res_article :: bool

section \<open>Voice: \<^verbatim>\<open>_analyze_voice\<close>\<close>

definition verb_pattern :: "doc \<Rightarrow> (string \<times> string) list" where
  "verb_pattern doc =
     map (\<lambda>token. (lower (tok_text token), tok_tag token)) (filter is_verb_token doc)"

definition be_verbs :: "string list" where
  "be_verbs = [''am'', ''is'', ''are'', ''was'', ''were'', ''be'', ''been'']"

definition analyze_voice :: "doc \<Rightarrow> voice" where
  "analyze_voice doc =
     (let has_be_verb = list_ex (\<lambda>(word, _). word \<in> set be_verbs) (verb_pattern doc);
          has_past_participle = list_ex (\<lambda>(_, tag). tag = ''VBN'') (verb_pattern doc)
      in if has_be_verb \<and> has_past_participle
            \<and> \<not> list_ex (\<lambda>(word, _). word \<in> set [''have'', ''has'', ''had'']) (verb_pattern doc)
         then Passive
         else Active)"

section \<open>Clause structure: \<^verbatim>\<open>_analyze_structure\<close>\<close>

definition analyze_structure :: "doc \<Rightarrow> clause_structure" where
  "analyze_structure doc =
     (let subjects = filter (\<lambda>token. str_contains ''subj'' (tok_dep token)) doc;
          verbs = filter is_verb_token doc;
          objects = filter (\<lambda>token. str_contains ''obj'' (tok_dep token)) doc
      in if subjects \<noteq> [] \<and> verbs \<noteq> []
         then (if objects \<noteq> [] then SVO else SV)
         else Other)"

section \<open>Tense: \<^verbatim>\<open>_analyze_tense\<close>\<close>

text \<open>The accumulators of the scanning loop.\<close>

record scan_state =
  aux_verbs :: "(string \<times> string) list"
  main_verbs :: "(string \<times> string) list"
  all_verb_tokens :: "token list"
  has_ing_form :: bool
  has_past_participle :: bool
  has_been :: bool

definition scan_init :: scan_state where
  "scan_init =
     \<lparr>aux_verbs = [], main_verbs = [], all_verb_tokens = [],
      has_ing_form = False, has_past_participle = False, has_been = False\<rparr>"

text \<open>
  \<^verbatim>\<open>doc[token.i + 1] if token.i + 1 < len(doc) else None\<close>. A token made by the parser has
  a text of at least one character, so the truth value of \<^verbatim>\<open>next_token\<close> in the source is
  that of \<open>next_token \<noteq> None\<close>.
\<close>

definition next_token :: "doc \<Rightarrow> token \<Rightarrow> error + token option" where
  "next_token doc token =
     (if tok_i token + 1 < int (length doc)
      then (case doc_getitem doc (tok_i token + 1) of Inl e \<Rightarrow> Inl e | Inr t \<Rightarrow> Inr (Some t))
      else Inr None)"

text \<open>The flags set from the tag of a verb token, before its text is looked at.\<close>

definition mark_forms :: "token \<Rightarrow> scan_state \<Rightarrow> scan_state" where
  "mark_forms token st =
     (if tok_tag token = ''VBG'' then st\<lparr>has_ing_form := True\<rparr>
      else if tok_tag token = ''VBN''
      then (if lower (tok_text token) = ''been''
            then st\<lparr>has_past_participle := True, has_been := True\<rparr>
            else st\<lparr>has_past_participle := True\<rparr>)
      else st)"

definition add_aux :: "string \<times> string \<Rightarrow> scan_state \<Rightarrow> scan_state" where
  "add_aux v st = st\<lparr>aux_verbs := aux_verbs st @ [v]\<rparr>"

definition add_main :: "string \<times> string \<Rightarrow> scan_state \<Rightarrow> scan_state" where
  "add_main v st = st\<lparr>main_verbs := main_verbs st @ [v]\<rparr>"

text \<open>One turn of the loop \<^verbatim>\<open>for token in doc\<close>.\<close>

definition tense_step :: "doc \<Rightarrow> token \<Rightarrow> scan_state \<Rightarrow> error + scan_state" where
  "tense_step doc token st =
     (if is_verb_token token then
        (let st1 = mark_forms token (st\<lparr>all_verb_tokens := all_verb_tokens st @ [token]\<rparr>) in
         if lower (tok_text token) \<in> set ['''s''] then
           (case next_token doc token of
              Inl e \<Rightarrow> Inl e
            | Inr nxt \<Rightarrow>
                if (case nxt of None \<Rightarrow> False | Some n \<Rightarrow> tok_tag n = ''VBG'')
                then Inr ((add_aux (''is'', ''VBZ'') st1)\<lparr>has_ing_form := True\<rparr>)
                else if (case nxt of None \<Rightarrow> False | Some n \<Rightarrow> lower (tok_text n) = ''been'')
                then Inr (add_aux (''has'', ''VBZ'') st1)
                else Inr (add_aux (''has'', ''VBZ'') st1))
         else if lower (tok_text token) \<in> set ['''ve''] then Inr (add_aux (''have'', ''VBP'') st1)
         else if lower (tok_text token) \<in> set ['''m''] then Inr (add_aux (''am'', ''VBP'') st1)
         else if lower (tok_text token) \<in> set ['''re''] then Inr (add_aux (''are'', ''VBP'') st1)
         else if tok_dep token = ''aux''
         then Inr (add_aux (lower (tok_text token), tok_tag token) st1)
         else Inr (add_main (lower (tok_text token), tok_tag token) st1))
      else Inr st)"

fun tense_loop :: "doc \<Rightarrow> token list \<Rightarrow> scan_state \<Rightarrow> error + scan_state" where
  "tense_loop doc [] st = Inr st"
| "tense_loop doc (token # rest) st =
     (case tense_step doc token st of
        Inl e \<Rightarrow> Inl e
      | Inr st' \<Rightarrow> tense_loop doc rest st')"

text \<open>\<^verbatim>\<open>any(verb in words for verb, _ in aux_verbs)\<close>.\<close>

definition any_aux :: "string list \<Rightarrow> scan_state \<Rightarrow> bool" where
  "any_aux words st = list_ex (\<lambda>(verb, _). verb \<in> set words) (aux_verbs st)"

text \<open>
  The decision after the loop is a sequence of \<^verbatim>\<open>if\<close> blocks, each of which returns or
  falls through to the next block. Each definition below is the function from one block to
  its end, the last block first.
\<close>

definition tense_simple :: "scan_state \<Rightarrow> tense" where
  "tense_simple st =
     (if list_ex (\<lambda>token. tok_tag token = ''VBD'') (all_verb_tokens st) then SimplePast
      else if list_ex (\<lambda>token. tok_tag token \<in> set [''VBP'', ''VBZ'']) (all_verb_tokens st)
      then SimplePresent
      else Unknown)"

definition tense_passive :: "scan_state \<Rightarrow> tense" where
  "tense_passive st =
     (if has_past_participle st \<and> \<not> has_been st then
        (if any_aux [''am'', ''is'', ''are''] st then PresentPassive
         else if any_aux [''was'', ''were''] st then PastPassive
         else tense_simple st)
      else tense_simple st)"

definition tense_perfect :: "scan_state \<Rightarrow> tense" where
  "tense_perfect st =
     (if has_past_participle st then
        (if any_aux [''have'', ''has'', '''ve'', '''s''] st then PresentPerfect
         else if list_ex (\<lambda>(verb, _). verb = ''had'') (aux_verbs st) then PastPerfect
         else tense_passive st)
      else tense_passive st)"

definition tense_progressive :: "scan_state \<Rightarrow> tense" where
  "tense_progressive st =
     (if has_ing_form st then
        (if any_aux [''am'', ''is'', ''are'', '''m'', '''s'', '''re''] st then PresentProgressive
         else if any_aux [''was'', ''were''] st then PastProgressive
         else tense_perfect st)
      else tense_perfect st)"

definition tense_decide :: "scan_state \<Rightarrow> tense" where
  "tense_decide st =
     (if has_been st \<and> has_ing_form st then
        (if any_aux [''have'', ''has'', '''ve'', '''s''] st then PresentPerfectProgressive
         else if list_ex (\<lambda>(verb, _). verb = ''had'') (aux_verbs st)
         then PastPerfectProgressive
         else tense_progressive st)
      else tense_progressive st)"

definition analyze_tense :: "doc \<Rightarrow> error + tense" where
  "analyze_tense doc =
     (case tense_loop doc doc scan_init of
        Inl e \<Rightarrow> Inl e
      | Inr st \<Rightarrow> Inr (tense_decide st))"

section \<open>Article usage: \<^verbatim>\<open>_check_article_usage\<close>\<close>

text \<open>
  \<^verbatim>\<open>token.children\<close>: the other tokens of the sentence whose head is this token, in
  sentence order.
\<close>

definition children :: "doc \<Rightarrow> token \<Rightarrow> token list" where
  "children doc token =
     filter (\<lambda>child. tok_head child = tok_i token \<and> tok_i child \<noteq> tok_i token) doc"

text \<open>\<^verbatim>\<open>doc[token.i - 1] if token.i > 0 else None\<close>.\<close>

definition prev_token :: "doc \<Rightarrow> token \<Rightarrow> error + token option" where
  "prev_token doc token =
     (if tok_i token > 0
      then (case doc_getitem doc (tok_i token - 1) of Inl e \<Rightarrow> Inl e | Inr t \<Rightarrow> Inr (Some t))
      else Inr None)"

definition article_exempt :: "string list" where
  "article_exempt =
     [''school'', ''home'', ''work'', ''breakfast'', ''lunch'', ''dinner'',
      ''yesterday'', ''today'', ''tomorrow'', ''tv'', ''television'']"

fun article_loop :: "doc \<Rightarrow> token list \<Rightarrow> error + bool" where
  "article_loop doc [] = Inr True"
| "article_loop doc (token # rest) =
     (if tok_pos token = ''NOUN'' \<and> tok_pos token \<noteq> ''PROPN'' then
        (if lower (tok_text token) \<in> set article_exempt then article_loop doc rest
         else if list_ex (\<lambda>child. tok_dep child \<in> set [''poss'', ''nummod''])
                   (children doc token)
         then article_loop doc rest
         else if tok_dep token = ''pobj'' then article_loop doc rest
         else (case prev_token doc token of
                 Inl e \<Rightarrow> Inl e
               | Inr prev \<Rightarrow>
                   if (case prev of
                         None \<Rightarrow> True
                       | Some p \<Rightarrow> tok_pos p \<notin> set [''DET'', ''PRON'', ''ADJ'', ''PROPN''])
                   then Inr False
                   else article_loop doc rest))
      else article_loop doc rest)"

definition check_article_usage :: "doc \<Rightarrow> error + bool" where
  "check_article_usage doc = article_loop doc doc"

section \<open>Subject-verb agreement: \<^verbatim>\<open>_check_subject_verb_agreement\<close>\<close>

text \<open>
  \<^verbatim>\<open>token.head\<close> is the token at the head position. It is read only when the first
  conjunct \<^verbatim>\<open>token.dep_ == "nsubj"\<close> holds.
\<close>

definition head_token :: "doc \<Rightarrow> token \<Rightarrow> error + token" where
  "head_token doc token = doc_getitem doc (tok_head token)"

fun agreement_loop :: "doc \<Rightarrow> token list \<Rightarrow> error + bool" where
  "agreement_loop doc [] = Inr True"
| "agreement_loop doc (token # rest) =
     (if tok_dep token = ''nsubj'' then
        (case head_token doc token of
           Inl e \<Rightarrow> Inl e
         | Inr h \<Rightarrow>
             if tok_pos h = ''VERB'' then
               (if tok_number token = [] \<or> tok_number h = [] then agreement_loop doc rest
                else if tok_number token \<noteq> tok_number h then Inr False
                else agreement_loop doc rest)
             else agreement_loop doc rest)
      else agreement_loop doc rest)"

definition check_subject_verb_agreement :: "doc \<Rightarrow> error + bool" where
  "check_subject_verb_agreement doc = agreement_loop doc doc"

section \<open>The whole analysis: \<^verbatim>\<open>analyze_grammar\<close>\<close>

text \<open>
  The five entries of the result are computed in the order in which the source writes
  them; the first one that raises ends the call. The argument is the parsed sentence, that
  is, \<^verbatim>\<open>self.nlp(text)\<close>.
\<close>

definition analyze_grammar :: "doc \<Rightarrow> error + analysis" where
  "analyze_grammar doc =
     (case analyze_tense doc of
        Inl e \<Rightarrow> Inl e
      | Inr t \<Rightarrow>
          (case check_subject_verb_agreement doc of
             Inl e \<Rightarrow> Inl e
           | Inr ag \<Rightarrow>
               (case check_article_usage doc of
                  Inl e \<Rightarrow> Inl e
                | Inr ar \<Rightarrow>
                    Inr \<lparr>res_tense = t, res_voice = analyze_voice doc,
                         res_structure = analyze_structure doc,
                         res_agreement = ag, res_article = ar\<rparr>)))"

section \<open>Well-formed sentences\<close>

text \<open>
  The invariant of the data model: the \<open>i\<close> of a token is its position, and the head of a
  token is a position of the sentence.
\<close>

fun indexed_from :: "int \<Rightarrow> token list \<Rightarrow> bool" where
  "indexed_from k [] = True"
| "indexed_from k (token # rest) = (tok_i token = k \<and> indexed_from (k + 1) rest)"

definition well_formed :: "doc \<Rightarrow> bool" where
  "well_formed doc =
     (indexed_from 0 doc
      \<and> list_all (\<lambda>token. 0 \<le> tok_head token \<and> tok_head token < int (length doc)) doc)"

section \<open>The rules of the specification, in its own words\<close>

text \<open>
  Section 4.1 of the specification gives the tense as an ordered list of rules, the first
  rule whose condition holds deciding the category, over the data the scan derives. The
  definitions of this section follow that text; the theorems compare them with the
  functions above, which follow the source.
\<close>

type_synonym rule = "scan_state \<Rightarrow> tense option"

definition aux_among :: "string list \<Rightarrow> scan_state \<Rightarrow> bool" where
  "aux_among words st = (set (map fst (aux_verbs st)) \<inter> set words \<noteq> {})"

definition aux_rule ::
  "(scan_state \<Rightarrow> bool) \<Rightarrow> string list \<Rightarrow> tense \<Rightarrow> string list \<Rightarrow> tense \<Rightarrow> rule" where
  "aux_rule guard present_words present past_words past st =
     (if guard st \<and> aux_among present_words st then Some present
      else if guard st \<and> aux_among past_words st then Some past
      else None)"

definition tag_rule :: "string list \<Rightarrow> tense \<Rightarrow> rule" where
  "tag_rule tags category st =
     (if set (map tok_tag (all_verb_tokens st)) \<inter> set tags \<noteq> {} then Some category
      else None)"

definition spec_rules :: "rule list" where
  "spec_rules =
     [aux_rule (\<lambda>st. has_been st \<and> has_ing_form st)
        [''have'', ''has'', '''ve'', '''s''] PresentPerfectProgressive
        [''had''] PastPerfectProgressive,
      aux_rule has_ing_form
        [''am'', ''is'', ''are'', '''m'', '''s'', '''re''] PresentProgressive
        [''was'', ''were''] PastProgressive,
      aux_rule has_past_participle
        [''have'', ''has'', '''ve'', '''s''] PresentPerfect
        [''had''] PastPerfect,
      aux_rule (\<lambda>st. has_past_participle st \<and> \<not> has_been st)
        [''am'', ''is'', ''are''] PresentPassive
        [''was'', ''were''] PastPassive,
      tag_rule [''VBD''] SimplePast,
      tag_rule [''VBP'', ''VBZ''] SimplePresent]"

fun first_match :: "rule list \<Rightarrow> scan_state \<Rightarrow> tense" where
  "first_match [] st = Unknown"
| "first_match (r # rs) st =
     (case r st of Some category \<Rightarrow> category | None \<Rightarrow> first_match rs st)"

text \<open>
  The scan of the specification, by position: the token that follows position \<open>k\<close>, the
  auxiliary a verb token emits, the main verb it emits, and whether it marks a gerund.
\<close>

definition following :: "doc \<Rightarrow> nat \<Rightarrow> token option" where
  "following doc k = (if Suc k < length doc then Some (doc ! Suc k) else None)"

definition followed_by_gerund :: "token option \<Rightarrow> bool" where
  "followed_by_gerund nxt = (case nxt of None \<Rightarrow> False | Some n \<Rightarrow> tok_tag n = ''VBG'')"

definition contracted :: "string list" where
  "contracted = ['''s'', '''ve'', '''m'', '''re'']"

definition spec_aux :: "token \<Rightarrow> token option \<Rightarrow> (string \<times> string) list" where
  "spec_aux token nxt =
     (let w = lower (tok_text token) in
      if \<not> is_verb_token token then []
      else if w = '''s'' then
        (if followed_by_gerund nxt then [(''is'', ''VBZ'')] else [(''has'', ''VBZ'')])
      else if w = '''ve'' then [(''have'', ''VBP'')]
      else if w = '''m'' then [(''am'', ''VBP'')]
      else if w = '''re'' then [(''are'', ''VBP'')]
      else if tok_dep token = ''aux'' then [(w, tok_tag token)]
      else [])"

definition spec_main :: "token \<Rightarrow> (string \<times> string) list" where
  "spec_main token =
     (if is_verb_token token \<and> lower (tok_text token) \<notin> set contracted
         \<and> tok_dep token \<noteq> ''aux''
      then [(lower (tok_text token), tok_tag token)]
      else [])"

definition spec_gerund :: "token \<Rightarrow> token option \<Rightarrow> bool" where
  "spec_gerund token nxt =
     (is_verb_token token
      \<and> (tok_tag token = ''VBG'' \<or> (lower (tok_text token) = '''s'' \<and> followed_by_gerund nxt)))"

definition spec_participle :: "token \<Rightarrow> bool" where
  "spec_participle token = (is_verb_token token \<and> tok_tag token = ''VBN'')"

definition spec_been :: "token \<Rightarrow> bool" where
  "spec_been token = (spec_participle token \<and> lower (tok_text token) = ''been'')"

definition spec_scan :: "doc \<Rightarrow> scan_state" where
  "spec_scan doc =
     \<lparr>aux_verbs = concat (map (\<lambda>k. spec_aux (doc ! k) (following doc k)) [0..<length doc]),
      main_verbs = concat (map spec_main doc),
      all_verb_tokens = filter is_verb_token doc,
      has_ing_form = list_ex (\<lambda>k. spec_gerund (doc ! k) (following doc k)) [0..<length doc],
      has_past_participle = list_ex spec_participle doc,
      has_been = list_ex spec_been doc\<rparr>"

text \<open>
  The noun that fails the article check and the subject that fails the agreement check, as
  the specification describes them.
\<close>

definition bare_noun :: "doc \<Rightarrow> nat \<Rightarrow> bool" where
  "bare_noun doc k =
     (let token = doc ! k in
      tok_pos token = ''NOUN''
      \<and> lower (tok_text token) \<notin> set article_exempt
      \<and> \<not> list_ex (\<lambda>child. tok_dep child = ''poss'' \<or> tok_dep child = ''nummod'')
            (children doc token)
      \<and> tok_dep token \<noteq> ''pobj''
      \<and> (k = 0 \<or> tok_pos (doc ! (k - 1)) \<notin> set [''DET'', ''PRON'', ''ADJ'', ''PROPN'']))"

definition disagrees :: "doc \<Rightarrow> token \<Rightarrow> bool" where
  "disagrees doc token =
     (let h = doc ! nat (tok_head token) in
      tok_dep token = ''nsubj'' \<and> tok_pos h = ''VERB''
      \<and> tok_number token \<noteq> [] \<and> tok_number h \<noteq> []
      \<and> tok_number token \<noteq> tok_number h)"

text \<open>The condition of the specification for the passive voice.\<close>

definition passive_condition :: "doc \<Rightarrow> bool" where
  "passive_condition doc =
     ((\<exists>token \<in> set doc. is_verb_token token
          \<and> lower (tok_text token) \<in> set [''am'', ''is'', ''are'', ''was'', ''were'', ''be'', ''been''])
      \<and> (\<exists>token \<in> set doc. is_verb_token token \<and> tok_tag token = ''VBN'')
      \<and> \<not> (\<exists>token \<in> set doc. is_verb_token token
              \<and> lower (tok_text token) \<in> set [''have'', ''has'', ''had'']))"

definition default_analysis :: analysis where
  "default_analysis =
     \<lparr>res_tense = Unknown, res_voice = Active, res_structure = Other,
      res_agreement = True, res_article = True\<rparr>"

section \<open>Sample sentences\<close>

definition tok ::
  "string \<Rightarrow> string \<Rightarrow> string \<Rightarrow> string \<Rightarrow> int \<Rightarrow> int \<Rightarrow> string list \<Rightarrow> token" where
  "tok t p g d k h n =
     \<lparr>tok_text = t, tok_pos = p, tok_tag = g, tok_dep = d, tok_i = k, tok_head = h,
      tok_number = n\<rparr>"

text \<open>"The food was being cooked.", the fourth test sentence of the source.\<close>

definition doc_food :: doc where
  "doc_food =
     [tok ''The'' ''DET'' ''DT'' ''det'' 0 1 [],
      tok ''food'' ''NOUN'' ''NN'' ''nsubjpass'' 1 4 [''Sing''],
      tok ''was'' ''AUX'' ''VBD'' ''aux'' 2 4 [''Sing''],
      tok ''being'' ''AUX'' ''VBG'' ''auxpass'' 3 4 [],
      tok ''cooked'' ''VERB'' ''VBN'' ''ROOT'' 4 4 [],
      tok ''.'' ''PUNCT'' ''.'' ''punct'' 5 4 []]"

text \<open>"He is writing a letter.", the first test sentence of the source.\<close>

definition doc_letter :: doc where
  "doc_letter =
     [tok ''He'' ''PRON'' ''PRP'' ''nsubj'' 0 2 [''Sing''],
      tok ''is'' ''AUX'' ''VBZ'' ''aux'' 1 2 [''Sing''],
      tok ''writing'' ''VERB'' ''VBG'' ''ROOT'' 2 2 [],
      tok ''a'' ''DET'' ''DT'' ''det'' 3 4 [],
      tok ''letter'' ''NOUN'' ''NN'' ''dobj'' 4 2 [''Sing''],
      tok ''.'' ''PUNCT'' ''.'' ''punct'' 5 2 []]"

text \<open>"It has been written", a perfect passive.\<close>

definition doc_written :: doc where
  "doc_written =
     [tok ''It'' ''PRON'' ''PRP'' ''nsubjpass'' 0 3 [''Sing''],
      tok ''has'' ''AUX'' ''VBZ'' ''aux'' 1 3 [''Sing''],
      tok ''been'' ''AUX'' ''VBN'' ''auxpass'' 2 3 [],
      tok ''written'' ''VERB'' ''VBN'' ''ROOT'' 3 3 []]"

text \<open>"It's raining", with a contracted auxiliary before a gerund.\<close>

definition doc_raining :: doc where
  "doc_raining =
     [tok ''It'' ''PRON'' ''PRP'' ''nsubj'' 0 2 [''Sing''],
      tok '''s'' ''AUX'' ''VBZ'' ''aux'' 1 2 [''Sing''],
      tok ''raining'' ''VERB'' ''VBG'' ''ROOT'' 2 2 []]"

text \<open>"Dogs barks", a bare noun as the plural subject of a singular verb.\<close>

definition doc_dogs :: doc where
  "doc_dogs =
     [tok ''Dogs'' ''NOUN'' ''NNS'' ''nsubj'' 0 1 [''Plur''],
      tok ''barks'' ''VERB'' ''VBZ'' ''ROOT'' 1 1 [''Sing'']]"

text \<open>"Hello", a sentence without verb, noun or subject.\<close>

definition doc_hello :: doc where
  "doc_hello = [tok ''Hello'' ''INTJ'' ''UH'' ''ROOT'' 0 0 []]"

section \<open>Evaluation on concrete sentences\<close>

lemmas eval_defs =
  analyze_grammar_def analyze_tense_def check_subject_verb_agreement_def
  check_article_usage_def analyze_voice_def analyze_structure_def scan_init_def
  tense_decide_def tense_progressive_def tense_perfect_def tense_passive_def
  tense_simple_def any_aux_def verb_pattern_def be_verbs_def is_verb_token_def
  tense_step_def mark_forms_def add_aux_def add_main_def next_token_def prev_token_def
  head_token_def doc_getitem_def children_def article_exempt_def lower_def lower_char_def
  tok_def well_formed_def default_analysis_def

section \<open>The results that do not depend on token lookups\<close>

lemma analyze_grammar_parts:
  assumes "analyze_grammar doc = Inr r"
  shows "analyze_tense doc = Inr (res_tense r)"
    and "res_voice r = analyze_voice doc"
    and "res_structure r = analyze_structure doc"
    and "check_subject_verb_agreement doc = Inr (res_agreement r)"
    and "check_article_usage doc = Inr (res_article r)"
  using assms by (auto simp add: analyze_grammar_def split: sum.splits)

text \<open>
  Claim C2. The voice is passive exactly when some VERB/AUX token has a lowered text among
  am, is, are, was, were, be, been, some VERB/AUX token has the tag VBN, and no VERB/AUX
  token has a lowered text among have, has, had; in every other case it is active. The voice
  of a returned analysis is this value.
\<close>

theorem voice_passive_iff:
  "(analyze_voice doc = Passive \<longleftrightarrow> passive_condition doc)
   \<and> (analyze_voice doc = Active \<longleftrightarrow> \<not> passive_condition doc)
   \<and> (\<forall>r. analyze_grammar doc = Inr r \<longrightarrow> res_voice r = analyze_voice doc)"
  by (auto simp add: analyze_voice_def verb_pattern_def be_verbs_def passive_condition_def
      list_ex_iff Let_def analyze_grammar_parts)

theorem voice_passive_iff_witness:
  "passive_condition doc_food \<and> analyze_voice doc_food = Passive
   \<and> \<not> passive_condition doc_letter \<and> analyze_voice doc_letter = Active
   \<and> (\<exists>r. analyze_grammar doc_food = Inr r \<and> res_voice r = Passive)"
proof -
  have food: "analyze_voice doc_food = Passive"
    by (simp add: eval_defs doc_food_def)
  have letter: "analyze_voice doc_letter = Active"
    by (simp add: eval_defs doc_letter_def)
  have run: "\<exists>r. analyze_grammar doc_food = Inr r"
    by (simp add: eval_defs doc_food_def)
  show ?thesis
    using voice_passive_iff [of doc_food] voice_passive_iff [of doc_letter] food letter run
    by auto
qed

text \<open>
  Claim C7. The structure is SVO when some token has a relation containing "subj", some
  token is a VERB or AUX and some token has a relation containing "obj"; SV when the first
  two hold and no relation contains "obj"; and "other" whenever there is no subject or no
  verb.
\<close>

theorem structure_cases:
  "analyze_structure doc =
     (if (\<exists>token \<in> set doc. str_contains ''subj'' (tok_dep token))
         \<and> (\<exists>token \<in> set doc. is_verb_token token)
      then (if (\<exists>token \<in> set doc. str_contains ''obj'' (tok_dep token)) then SVO else SV)
      else Other)"
  by (auto simp add: analyze_structure_def Let_def filter_empty_conv)

theorem structure_cases_witness:
  "analyze_structure doc_letter = SVO \<and> analyze_structure doc_food = SV
   \<and> analyze_structure [] = Other"
proof -
  have "(\<exists>token \<in> set doc_letter. str_contains ''subj'' (tok_dep token))"
    "(\<exists>token \<in> set doc_letter. is_verb_token token)"
    "(\<exists>token \<in> set doc_letter. str_contains ''obj'' (tok_dep token))"
    by (simp_all add: doc_letter_def tok_def is_verb_token_def)
  moreover have "(\<exists>token \<in> set doc_food. str_contains ''subj'' (tok_dep token))"
    "(\<exists>token \<in> set doc_food. is_verb_token token)"
    "\<not> (\<exists>token \<in> set doc_food. str_contains ''obj'' (tok_dep token))"
    by (simp_all add: doc_food_def tok_def is_verb_token_def)
  ultimately show ?thesis
    using structure_cases [of doc_letter] structure_cases [of doc_food] structure_cases [of "[]"]
    by simp
qed

text \<open>
  Claim C10. On the sentence without tokens the analysis returns the default of each of
  its five entries: tense unknown, voice active, structure other, agreement and article
  usage true.
\<close>

theorem empty_sentence_defaults:
  "analyze_grammar [] =
     Inr \<lparr>res_tense = Unknown, res_voice = Active, res_structure = Other,
          res_agreement = True, res_article = True\<rparr>"
  by (simp add: eval_defs)

section \<open>Token lookups on indexed sentences\<close>

lemma indexed_from_nth:
  "indexed_from k doc \<Longrightarrow> j < length doc \<Longrightarrow> tok_i (doc ! j) = k + int j"
proof (induction doc arbitrary: k j)
  case Nil
  then show ?case by simp
next
  case (Cons t ts)
  show ?case
  proof (cases j)
    case 0
    with Cons.prems show ?thesis by simp
  next
    case (Suc m)
    with Cons.prems have "tok_i (ts ! m) = (k + 1) + int m"
      by (intro Cons.IH) simp_all
    with Suc show ?thesis by simp
  qed
qed

lemma next_token_indexed:
  assumes "indexed_from 0 doc" and "k < length doc"
  shows "next_token doc (doc ! k) = Inr (following doc k)"
proof -
  have i: "tok_i (doc ! k) = int k"
    using indexed_from_nth [OF assms] by simp
  show ?thesis
    using assms(2) by (simp add: next_token_def following_def doc_getitem_def i nat_add_distrib)
qed

lemma prev_token_indexed:
  assumes "indexed_from 0 doc" and "k < length doc"
  shows "prev_token doc (doc ! k) = Inr (if k = 0 then None else Some (doc ! (k - 1)))"
proof -
  have i: "tok_i (doc ! k) = int k"
    using indexed_from_nth [OF assms] by simp
  show ?thesis
    using assms(2) by (auto simp add: prev_token_def doc_getitem_def i nat_diff_distrib')
qed

lemma head_token_well_formed:
  assumes "well_formed doc" and "token \<in> set doc"
  shows "head_token doc token = Inr (doc ! nat (tok_head token))"
  using assms by (auto simp add: well_formed_def head_token_def doc_getitem_def list_all_iff)

lemma tense_step_resolved:
  assumes "next_token doc token = Inr nxt"
  shows "tense_step doc token st =
     Inr \<lparr>aux_verbs = aux_verbs st @ spec_aux token nxt,
          main_verbs = main_verbs st @ spec_main token,
          all_verb_tokens = all_verb_tokens st @ filter is_verb_token [token],
          has_ing_form = (has_ing_form st \<or> spec_gerund token nxt),
          has_past_participle = (has_past_participle st \<or> spec_participle token),
          has_been = (has_been st \<or> spec_been token)\<rparr>"
  using assms
  by (cases nxt)
     (auto simp add: tense_step_def mark_forms_def add_aux_def add_main_def spec_aux_def
       spec_main_def spec_gerund_def spec_participle_def spec_been_def followed_by_gerund_def
       contracted_def Let_def)

section \<open>The substring test, and a sentence on which the analysis raises\<close>

lemma starts_with_iff: "starts_with needle hay \<longleftrightarrow> (\<exists>post. hay = needle @ post)"
  by (induction needle hay rule: starts_with.induct) auto

lemma str_contains_iff:
  "str_contains needle hay \<longleftrightarrow> (\<exists>pre post. hay = pre @ needle @ post)"
proof (induction hay)
  case Nil
  then show ?case by auto
next
  case (Cons d ds)
  have "(\<exists>pre post. d # ds = pre @ needle @ post)
      \<longleftrightarrow> (\<exists>post. d # ds = needle @ post) \<or> (\<exists>pre post. ds = pre @ needle @ post)"
  proof
    assume "\<exists>pre post. d # ds = pre @ needle @ post"
    then obtain pre post where e: "d # ds = pre @ needle @ post" by blast
    show "(\<exists>post. d # ds = needle @ post) \<or> (\<exists>pre post. ds = pre @ needle @ post)"
    proof (cases pre)
      case Nil
      with e show ?thesis by auto
    next
      case (Cons p ps)
      with e have "ds = ps @ needle @ post" by simp
      then show ?thesis by blast
    qed
  next
    assume "(\<exists>post. d # ds = needle @ post) \<or> (\<exists>pre post. ds = pre @ needle @ post)"
    then show "\<exists>pre post. d # ds = pre @ needle @ post"
    proof
      assume "\<exists>post. d # ds = needle @ post"
      then obtain post where "d # ds = [] @ needle @ post" by auto
      then show ?thesis by blast
    next
      assume "\<exists>pre post. ds = pre @ needle @ post"
      then obtain pre post where "d # ds = (d # pre) @ needle @ post" by auto
      then show ?thesis by blast
    qed
  qed
  then show ?case
    using Cons.IH by (simp add: starts_with_iff)
qed

lemma ill_indexed_raises:
  "analyze_grammar [tok ''dog'' ''NOUN'' ''NN'' ''ROOT'' 5 0 []] = Inl IndexError"
  by (simp add: eval_defs)

lemma lower_examples:
  "lower ''Been'' = ''been''" "lower ''TV'' = ''tv''" "lower '''S'' = '''s''"
  by (simp_all add: lower_def lower_char_def)

section \<open>The scan and the rule cascade of the tense\<close>

lemma tense_loop_from:
  assumes idx: "indexed_from 0 doc"
  shows "k \<le> length doc \<Longrightarrow>
    tense_loop doc (drop k doc) st =
     Inr \<lparr>aux_verbs = aux_verbs st
             @ concat (map (\<lambda>j. spec_aux (doc ! j) (following doc j)) [k..<length doc]),
          main_verbs = main_verbs st @ concat (map spec_main (drop k doc)),
          all_verb_tokens = all_verb_tokens st @ filter is_verb_token (drop k doc),
          has_ing_form = (has_ing_form st
             \<or> list_ex (\<lambda>j. spec_gerund (doc ! j) (following doc j)) [k..<length doc]),
          has_past_participle = (has_past_participle st \<or> list_ex spec_participle (drop k doc)),
          has_been = (has_been st \<or> list_ex spec_been (drop k doc))\<rparr>"
proof (induction "length doc - k" arbitrary: k st)
  case 0
  then show ?case by simp
next
  case (Suc n)
  then have k: "k < length doc" by simp
  have drop: "drop k doc = doc ! k # drop (Suc k) doc"
    using k by (simp add: Cons_nth_drop_Suc)
  have upt: "[k..<length doc] = k # [Suc k..<length doc]"
    using k by (simp add: upt_conv_Cons)
  have step: "tense_step doc (doc ! k) st = Inr
     \<lparr>aux_verbs = aux_verbs st @ spec_aux (doc ! k) (following doc k),
      main_verbs = main_verbs st @ spec_main (doc ! k),
      all_verb_tokens = all_verb_tokens st @ filter is_verb_token [doc ! k],
      has_ing_form = (has_ing_form st \<or> spec_gerund (doc ! k) (following doc k)),
      has_past_participle = (has_past_participle st \<or> spec_participle (doc ! k)),
      has_been = (has_been st \<or> spec_been (doc ! k))\<rparr>"
    by (rule tense_step_resolved [OF next_token_indexed [OF idx k]])
  have rest: "n = length doc - Suc k" "Suc k \<le> length doc"
    using Suc.hyps(2) k by simp_all
  show ?case
    unfolding drop upt
    by (simp add: step Suc.hyps(1) [OF rest])
qed

lemma tense_loop_spec_scan:
  assumes "indexed_from 0 doc"
  shows "tense_loop doc doc scan_init = Inr (spec_scan doc)"
  using tense_loop_from [OF assms, of 0 scan_init]
  by (simp add: scan_init_def spec_scan_def)

lemma any_aux_among: "any_aux ws st = aux_among ws st"
  by (auto simp add: any_aux_def aux_among_def list_ex_iff)

lemma had_among:
  "list_ex (\<lambda>(verb, _). verb = ''had'') (aux_verbs st) = aux_among [''had''] st"
  by (auto simp add: aux_among_def list_ex_iff) force

lemma tag_rule_any:
  "tag_rule tags category st =
     (if list_ex (\<lambda>token. tok_tag token \<in> set tags) (all_verb_tokens st) then Some category
      else None)"
proof -
  have "(set (map tok_tag (all_verb_tokens st)) \<inter> set tags \<noteq> {})
      = (\<exists>token \<in> set (all_verb_tokens st). tok_tag token \<in> set tags)"
    by auto
  then show ?thesis
    by (simp add: tag_rule_def list_ex_iff)
qed

lemma simple_first_match: "tense_simple st = first_match (drop 4 spec_rules) st"
  by (simp add: tense_simple_def tag_rule_any spec_rules_def)

lemma passive_first_match: "tense_passive st = first_match (drop 3 spec_rules) st"
proof -
  have d: "drop 3 spec_rules =
      aux_rule (\<lambda>st. has_past_participle st \<and> \<not> has_been st)
        [''am'', ''is'', ''are''] PresentPassive [''was'', ''were''] PastPassive
      # drop 4 spec_rules"
    by (simp add: spec_rules_def)
  show ?thesis
    unfolding d
    by (simp add: tense_passive_def simple_first_match any_aux_among aux_rule_def)
qed

lemma perfect_first_match: "tense_perfect st = first_match (drop 2 spec_rules) st"
proof -
  have d: "drop 2 spec_rules =
      aux_rule has_past_participle
        [''have'', ''has'', '''ve'', '''s''] PresentPerfect [''had''] PastPerfect
      # drop 3 spec_rules"
    by (simp add: spec_rules_def)
  show ?thesis
    unfolding d
    by (simp add: tense_perfect_def passive_first_match any_aux_among had_among aux_rule_def)
qed

lemma progressive_first_match: "tense_progressive st = first_match (drop 1 spec_rules) st"
proof -
  have d: "drop 1 spec_rules =
      aux_rule has_ing_form
        [''am'', ''is'', ''are'', '''m'', '''s'', '''re''] PresentProgressive
        [''was'', ''were''] PastProgressive
      # drop 2 spec_rules"
    by (simp add: spec_rules_def)
  show ?thesis
    unfolding d
    by (simp add: tense_progressive_def perfect_first_match any_aux_among aux_rule_def)
qed

lemma tense_decide_first_match: "tense_decide st = first_match spec_rules st"
proof -
  have d: "spec_rules =
      aux_rule (\<lambda>st. has_been st \<and> has_ing_form st)
        [''have'', ''has'', '''ve'', '''s''] PresentPerfectProgressive
        [''had''] PastPerfectProgressive
      # drop 1 spec_rules"
    by (simp add: spec_rules_def)
  show ?thesis
    by (subst d)
      (simp add: tense_decide_def progressive_first_match any_aux_among had_among aux_rule_def)
qed

section \<open>The tense claims\<close>

text \<open>
  Claim C1. The tense is the category of the first rule that matches, in the order of the
  six rules of the specification, and unknown when none does, over the data of the scan;
  on a sentence whose indices are its positions the scan returns, and its data are the
  auxiliary list, the three flags and the verb tokens that the specification describes.
\<close>

theorem tense_by_ordered_rules:
  "analyze_tense doc =
     (case tense_loop doc doc scan_init of
        Inl e \<Rightarrow> Inl e
      | Inr st \<Rightarrow> Inr (first_match spec_rules st))
   \<and> (indexed_from 0 doc \<longrightarrow>
        tense_loop doc doc scan_init = Inr (spec_scan doc)
        \<and> analyze_tense doc = Inr (first_match spec_rules (spec_scan doc)))"
  by (simp add: analyze_tense_def tense_decide_first_match tense_loop_spec_scan
      split: sum.splits)

lemma spec_scan_raining:
  "spec_scan doc_raining =
     \<lparr>aux_verbs = [(''is'', ''VBZ'')], main_verbs = [(''raining'', ''VBG'')],
      all_verb_tokens = [doc_raining ! 1, doc_raining ! 2],
      has_ing_form = True, has_past_participle = False, has_been = False\<rparr>"
  by (simp add: spec_scan_def doc_raining_def tok_def spec_aux_def spec_main_def
      spec_gerund_def spec_participle_def spec_been_def following_def followed_by_gerund_def
      contracted_def is_verb_token_def lower_def lower_char_def upt_rec)

theorem tense_by_ordered_rules_witness:
  "indexed_from 0 doc_raining
   \<and> analyze_tense doc_raining = Inr PresentProgressive
   \<and> first_match spec_rules (spec_scan doc_raining) = PresentProgressive"
proof -
  have idx: "indexed_from 0 doc_raining"
    by (simp add: doc_raining_def tok_def)
  have "first_match spec_rules (spec_scan doc_raining) = PresentProgressive"
    by (simp add: spec_scan_raining spec_rules_def aux_rule_def aux_among_def)
  then show ?thesis
    using tense_by_ordered_rules [of doc_raining] idx by simp
qed

lemma tense_step_has_been:
  "tense_step doc token st = Inr st' \<Longrightarrow> has_been st' = (has_been st \<or> spec_been token)"
  by (auto simp add: tense_step_def mark_forms_def add_aux_def add_main_def spec_been_def
      spec_participle_def Let_def split: if_splits sum.splits)

lemma tense_loop_has_been:
  "tense_loop doc ts st = Inr st' \<Longrightarrow> has_been st' = (has_been st \<or> list_ex spec_been ts)"
proof (induction ts arbitrary: st)
  case Nil
  then show ?case by simp
next
  case (Cons t ts)
  then obtain st1 where s: "tense_step doc t st = Inr st1" and l: "tense_loop doc ts st1 = Inr st'"
    by (auto split: sum.splits)
  show ?case
    using Cons.IH [OF l] tense_step_has_been [OF s] by auto
qed

lemma has_been_not_passive:
  "has_been st \<Longrightarrow> tense_decide st \<noteq> PresentPassive \<and> tense_decide st \<noteq> PastPassive"
  by (simp add: tense_decide_def tense_progressive_def tense_perfect_def tense_passive_def
      tense_simple_def)

text \<open>
  Claim C4. When a VERB/AUX token with the tag VBN has the lowered text "been", so that the
  scan sets \<open>has_been\<close>, the tense is neither present passive nor past passive.
\<close>

theorem been_never_passive_tense:
  assumes "analyze_tense doc = Inr t"
    and "\<exists>token \<in> set doc. is_verb_token token \<and> tok_tag token = ''VBN''
           \<and> lower (tok_text token) = ''been''"
  shows "t \<noteq> PresentPassive \<and> t \<noteq> PastPassive"
proof -
  from assms(1) obtain st where l: "tense_loop doc doc scan_init = Inr st"
    and t: "t = tense_decide st"
    by (auto simp add: analyze_tense_def split: sum.splits)
  have "list_ex spec_been doc"
    using assms(2) by (auto simp add: list_ex_iff spec_been_def spec_participle_def)
  then have "has_been st"
    using tense_loop_has_been [OF l] by simp
  then show ?thesis
    unfolding t by (rule has_been_not_passive)
qed

theorem been_never_passive_tense_witness:
  "analyze_tense doc_written = Inr PresentPerfect
   \<and> (\<exists>token \<in> set doc_written. is_verb_token token \<and> tok_tag token = ''VBN''
         \<and> lower (tok_text token) = ''been'')
   \<and> PresentPerfect \<noteq> PresentPassive \<and> PresentPerfect \<noteq> PastPassive"
proof -
  have a: "analyze_tense doc_written = Inr PresentPerfect"
    by (simp add: eval_defs doc_written_def)
  have b: "\<exists>token \<in> set doc_written. is_verb_token token \<and> tok_tag token = ''VBN''
         \<and> lower (tok_text token) = ''been''"
    by (simp add: doc_written_def tok_def is_verb_token_def lower_def lower_char_def)
  show ?thesis
    using been_never_passive_tense [OF a b] a b by simp
qed

text \<open>
  Claim C8. One turn of the scan on a VERB/AUX token: the contracted form 's adds the
  auxiliary (is, VBZ) and sets the gerund flag when the next token has the tag VBG, and adds
  (has, VBZ) otherwise; 've, 'm and 're add (have, VBP), (am, VBP) and (are, VBP); each of
  them whatever the relation of the token. A token that is not contracted is an auxiliary
  when its relation is aux and a main verb otherwise.
\<close>

theorem contracted_auxiliaries:
  assumes "is_verb_token token"
  shows "(lower (tok_text token) = '''s'' \<longrightarrow>
            (\<forall>nxt. next_token doc token = Inr nxt \<longrightarrow>
               (\<exists>st'. tense_step doc token st = Inr st'
                  \<and> aux_verbs st' = aux_verbs st
                       @ [if followed_by_gerund nxt then (''is'', ''VBZ'') else (''has'', ''VBZ'')]
                  \<and> (followed_by_gerund nxt \<longrightarrow> has_ing_form st')
                  \<and> main_verbs st' = main_verbs st)))
       \<and> (lower (tok_text token) = '''ve'' \<longrightarrow>
            (\<exists>st'. tense_step doc token st = Inr st'
               \<and> aux_verbs st' = aux_verbs st @ [(''have'', ''VBP'')]
               \<and> main_verbs st' = main_verbs st))
       \<and> (lower (tok_text token) = '''m'' \<longrightarrow>
            (\<exists>st'. tense_step doc token st = Inr st'
               \<and> aux_verbs st' = aux_verbs st @ [(''am'', ''VBP'')]
               \<and> main_verbs st' = main_verbs st))
       \<and> (lower (tok_text token) = '''re'' \<longrightarrow>
            (\<exists>st'. tense_step doc token st = Inr st'
               \<and> aux_verbs st' = aux_verbs st @ [(''are'', ''VBP'')]
               \<and> main_verbs st' = main_verbs st))
       \<and> (lower (tok_text token) \<notin> set contracted \<and> tok_dep token = ''aux'' \<longrightarrow>
            (\<exists>st'. tense_step doc token st = Inr st'
               \<and> aux_verbs st' = aux_verbs st @ [(lower (tok_text token), tok_tag token)]
               \<and> main_verbs st' = main_verbs st))
       \<and> (lower (tok_text token) \<notin> set contracted \<and> tok_dep token \<noteq> ''aux'' \<longrightarrow>
            (\<exists>st'. tense_step doc token st = Inr st'
               \<and> aux_verbs st' = aux_verbs st
               \<and> main_verbs st' = main_verbs st @ [(lower (tok_text token), tok_tag token)]))"
  using assms
  by (auto simp add: tense_step_def mark_forms_def add_aux_def add_main_def
      followed_by_gerund_def contracted_def Let_def split: option.splits)

theorem contracted_auxiliaries_witness:
  "is_verb_token (doc_raining ! 1) \<and> lower (tok_text (doc_raining ! 1)) = '''s''
   \<and> tok_tag (doc_raining ! 2) = ''VBG''
   \<and> next_token doc_raining (doc_raining ! 1) = Inr (Some (doc_raining ! 2))
   \<and> (\<exists>st'. tense_step doc_raining (doc_raining ! 1) scan_init = Inr st'
        \<and> aux_verbs st' = [(''is'', ''VBZ'')] \<and> has_ing_form st' \<and> main_verbs st' = [])"
proof -
  have v: "is_verb_token (doc_raining ! 1)"
    and w: "lower (tok_text (doc_raining ! 1)) = '''s''"
    and g: "tok_tag (doc_raining ! 2) = ''VBG''"
    by (simp_all add: doc_raining_def tok_def is_verb_token_def lower_def lower_char_def)
  have n: "next_token doc_raining (doc_raining ! 1) = Inr (Some (doc_raining ! 2))"
    by (simp add: doc_raining_def tok_def next_token_def doc_getitem_def)
  have f: "followed_by_gerund (Some (doc_raining ! 2))"
    using g by (simp add: followed_by_gerund_def)
  show ?thesis
    using contracted_auxiliaries [OF v, of doc_raining scan_init] v w g n f
    by (simp add: scan_init_def)
qed

text \<open>
  Claim C3. On "The food was being cooked." the scan returns without \<open>has_been\<close>, with
  the gerund flag set by "being" and with the one auxiliary "was"; the voice is passive. The
  tense is decided by the progressive block, which returns past progressive, and not by the
  perfect and passive blocks, which from their start would return past passive, the value
  that the comment on this test sentence in the source announces.
\<close>

theorem food_tense_from_progressive_rule:
  "\<exists>st. tense_loop doc_food doc_food scan_init = Inr st
     \<and> \<not> has_been st \<and> has_ing_form st \<and> has_past_participle st
     \<and> map fst (aux_verbs st) = [''was'']
     \<and> tense_decide st = PastProgressive
     \<and> tense_perfect st = PastPassive
     \<and> analyze_grammar doc_food =
         Inr \<lparr>res_tense = PastProgressive, res_voice = Passive, res_structure = SV,
              res_agreement = True, res_article = True\<rparr>"
  by (simp add: eval_defs doc_food_def)

section \<open>Article usage, agreement and totality\<close>

lemma article_loop_from:
  assumes idx: "indexed_from 0 doc"
  shows "k \<le> length doc \<Longrightarrow>
    article_loop doc (drop k doc) = Inr (\<not> (\<exists>j. k \<le> j \<and> j < length doc \<and> bare_noun doc j))"
proof (induction "length doc - k" arbitrary: k)
  case 0
  then show ?case by simp
next
  case (Suc n)
  then have k: "k < length doc" by simp
  have drop: "drop k doc = doc ! k # drop (Suc k) doc"
    using k by (simp add: Cons_nth_drop_Suc)
  have prev: "prev_token doc (doc ! k) = Inr (if k = 0 then None else Some (doc ! (k - 1)))"
    by (rule prev_token_indexed [OF idx k])
  have rest: "article_loop doc (drop (Suc k) doc)
      = Inr (\<not> (\<exists>j. Suc k \<le> j \<and> j < length doc \<and> bare_noun doc j))"
    using Suc.hyps(2) k by (intro Suc.hyps(1)) simp_all
  have split: "(\<exists>j. k \<le> j \<and> j < length doc \<and> bare_noun doc j)
      = (bare_noun doc k \<or> (\<exists>j. Suc k \<le> j \<and> j < length doc \<and> bare_noun doc j))"
    using k by (metis Suc_leI le_neq_implies_less Suc_leD le_refl)
  show ?case
    unfolding drop split
    by (simp add: prev rest bare_noun_def Let_def list_ex_iff)
qed

lemma article_loop_short_circuit:
  "article_loop doc pre = Inr False \<Longrightarrow> article_loop doc (pre @ post) = Inr False"
  by (induction pre) (auto split: if_splits sum.splits)

text \<open>
  Claim C5. On a sentence whose indices are its positions, the article check is false
  exactly when some position holds a bare noun: a NOUN that is not exempt, has no child with
  relation poss or nummod, is not a pobj, and has no preceding token or one that is not a
  DET, PRON, ADJ or PROPN. Once the loop has returned false on a prefix, the tokens after it
  are not read.
\<close>

theorem article_check_iff:
  "(indexed_from 0 doc \<longrightarrow>
      check_article_usage doc = Inr (\<not> (\<exists>k < length doc. bare_noun doc k)))
   \<and> (\<forall>pre post. article_loop doc pre = Inr False \<longrightarrow>
         article_loop doc (pre @ post) = Inr False)"
  using article_loop_from [of doc 0]
  by (simp add: check_article_usage_def article_loop_short_circuit)

theorem article_check_iff_witness:
  "indexed_from 0 doc_dogs \<and> bare_noun doc_dogs 0 \<and> check_article_usage doc_dogs = Inr False
   \<and> indexed_from 0 doc_letter \<and> \<not> (\<exists>k < length doc_letter. bare_noun doc_letter k)
   \<and> check_article_usage doc_letter = Inr True
   \<and> article_loop doc_dogs [doc_dogs ! 0] = Inr False
   \<and> article_loop doc_dogs ([doc_dogs ! 0] @ doc_letter) = Inr False"
proof -
  have d: "indexed_from 0 doc_dogs" "bare_noun doc_dogs 0" "0 < length doc_dogs"
    by (simp_all add: doc_dogs_def tok_def bare_noun_def children_def article_exempt_def
        lower_def lower_char_def)
  have l: "indexed_from 0 doc_letter"
    by (simp add: doc_letter_def tok_def)
  have n: "\<not> (\<exists>k < length doc_letter. bare_noun doc_letter k)"
    by (simp add: doc_letter_def tok_def bare_noun_def children_def article_exempt_def
        lower_def lower_char_def Ex_less_Suc)
  have s: "article_loop doc_dogs [doc_dogs ! 0] = Inr False"
    by (simp add: doc_dogs_def tok_def children_def article_exempt_def prev_token_def
        lower_def lower_char_def)
  have "check_article_usage doc_dogs = Inr False"
    using article_check_iff [of doc_dogs] d by auto
  moreover have "check_article_usage doc_letter = Inr True"
    using article_check_iff [of doc_letter] l n by simp
  moreover have "article_loop doc_dogs ([doc_dogs ! 0] @ doc_letter) = Inr False"
    using article_check_iff [of doc_dogs] s by blast
  ultimately show ?thesis
    using d l n s by simp
qed

lemma agreement_loop_subset:
  assumes wf: "well_formed doc"
  shows "set ts \<subseteq> set doc \<Longrightarrow>
    agreement_loop doc ts = Inr (\<not> (\<exists>token \<in> set ts. disagrees doc token))"
proof (induction ts)
  case Nil
  then show ?case by simp
next
  case (Cons t ts)
  then have h: "head_token doc t = Inr (doc ! nat (tok_head t))"
    by (intro head_token_well_formed [OF wf]) simp
  from Cons have "agreement_loop doc ts = Inr (\<not> (\<exists>token \<in> set ts. disagrees doc token))"
    by simp
  then show ?case
    by (simp add: h disagrees_def Let_def)
qed

lemma agreement_loop_short_circuit:
  "agreement_loop doc pre = Inr False \<Longrightarrow> agreement_loop doc (pre @ post) = Inr False"
  by (induction pre) (auto split: if_splits sum.splits)

text \<open>
  Claim C6. On a well-formed sentence the agreement check is false exactly when some token
  has the relation nsubj, a head that is a VERB, and a number that is present, as is the
  number of the head, and differs from it; a pair with an absent number never fails the
  check. Once the loop has returned false on a prefix, the tokens after it are not read.
\<close>

theorem agreement_check_iff:
  "(well_formed doc \<longrightarrow>
      check_subject_verb_agreement doc = Inr (\<not> (\<exists>token \<in> set doc. disagrees doc token)))
   \<and> (well_formed doc
        \<and> (\<forall>token \<in> set doc. tok_number token = []
               \<or> tok_number (doc ! nat (tok_head token)) = []) \<longrightarrow>
      check_subject_verb_agreement doc = Inr True)
   \<and> (\<forall>pre post. agreement_loop doc pre = Inr False \<longrightarrow>
         agreement_loop doc (pre @ post) = Inr False)"
  using agreement_loop_subset [of doc doc]
  by (auto simp add: check_subject_verb_agreement_def agreement_loop_short_circuit
      disagrees_def Let_def)

theorem agreement_check_iff_witness:
  "well_formed doc_dogs \<and> disagrees doc_dogs (doc_dogs ! 0)
   \<and> check_subject_verb_agreement doc_dogs = Inr False
   \<and> well_formed doc_letter \<and> \<not> (\<exists>token \<in> set doc_letter. disagrees doc_letter token)
   \<and> check_subject_verb_agreement doc_letter = Inr True"
proof -
  have d: "well_formed doc_dogs" "disagrees doc_dogs (doc_dogs ! 0)"
    "doc_dogs ! 0 \<in> set doc_dogs"
    by (simp_all add: doc_dogs_def tok_def well_formed_def disagrees_def)
  have l: "well_formed doc_letter" "\<not> (\<exists>token \<in> set doc_letter. disagrees doc_letter token)"
    by (simp_all add: doc_letter_def tok_def well_formed_def disagrees_def)
  show ?thesis
    using agreement_check_iff [of doc_dogs] agreement_check_iff [of doc_letter] d l
    by auto
qed

lemma first_match_none:
  "\<forall>r \<in> set rules. r st = None \<Longrightarrow> first_match rules st = Unknown"
  by (induction rules) simp_all

lemma well_formed_indexed: "well_formed doc \<Longrightarrow> indexed_from 0 doc"
  by (simp add: well_formed_def)

text \<open>
  Claim C9. On a well-formed sentence the analysis returns a result; the look-ahead of the
  last token and the look-behind of the first token give no token rather than an error; and
  each of the five analyses returns its default when none of its conditions holds.
\<close>

theorem total_on_well_formed:
  assumes wf: "well_formed doc"
  shows "(\<exists>r. analyze_grammar doc = Inr r)
   \<and> (doc \<noteq> [] \<longrightarrow> next_token doc (last doc) = Inr None \<and> prev_token doc (hd doc) = Inr None)
   \<and> ((\<forall>r \<in> set spec_rules. r (spec_scan doc) = None) \<longrightarrow> analyze_tense doc = Inr Unknown)
   \<and> (\<not> passive_condition doc \<longrightarrow> analyze_voice doc = Active)
   \<and> ((\<forall>token \<in> set doc. \<not> str_contains ''subj'' (tok_dep token))
        \<or> (\<forall>token \<in> set doc. \<not> is_verb_token token) \<longrightarrow> analyze_structure doc = Other)
   \<and> (\<not> (\<exists>token \<in> set doc. disagrees doc token) \<longrightarrow>
        check_subject_verb_agreement doc = Inr True)
   \<and> (\<not> (\<exists>k < length doc. bare_noun doc k) \<longrightarrow> check_article_usage doc = Inr True)"
proof -
  have idx: "indexed_from 0 doc"
    using wf by (rule well_formed_indexed)
  have tense: "analyze_tense doc = Inr (first_match spec_rules (spec_scan doc))"
    by (simp add: analyze_tense_def tense_loop_spec_scan [OF idx] tense_decide_first_match)
  have agree: "check_subject_verb_agreement doc
      = Inr (\<not> (\<exists>token \<in> set doc. disagrees doc token))"
    using agreement_loop_subset [OF wf, of doc] by (simp add: check_subject_verb_agreement_def)
  have article: "check_article_usage doc = Inr (\<not> (\<exists>k < length doc. bare_noun doc k))"
    using article_loop_from [OF idx, of 0] by (simp add: check_article_usage_def)
  have total: "\<exists>r. analyze_grammar doc = Inr r"
    by (simp add: analyze_grammar_def tense agree article)
  have bounds: "doc \<noteq> [] \<longrightarrow>
      next_token doc (last doc) = Inr None \<and> prev_token doc (hd doc) = Inr None"
  proof
    assume ne: "doc \<noteq> []"
    then have k: "length doc - 1 < length doc" "0 < length doc" by simp_all
    have "next_token doc (doc ! (length doc - 1)) = Inr (following doc (length doc - 1))"
      by (rule next_token_indexed [OF idx k(1)])
    moreover have "prev_token doc (doc ! 0) = Inr None"
      using prev_token_indexed [OF idx k(2)] by simp
    ultimately show "next_token doc (last doc) = Inr None \<and> prev_token doc (hd doc) = Inr None"
      using ne by (simp add: last_conv_nth hd_conv_nth following_def)
  qed
  have voice: "\<not> passive_condition doc \<longrightarrow> analyze_voice doc = Active"
    by (auto simp add: analyze_voice_def verb_pattern_def be_verbs_def passive_condition_def
        list_ex_iff Let_def)
  have struct: "(\<forall>token \<in> set doc. \<not> str_contains ''subj'' (tok_dep token))
        \<or> (\<forall>token \<in> set doc. \<not> is_verb_token token) \<longrightarrow> analyze_structure doc = Other"
    by (auto simp add: analyze_structure_def Let_def filter_empty_conv)
  show ?thesis
    using total bounds voice struct
    by (simp add: tense agree article first_match_none)
qed

theorem total_on_well_formed_witness:
  "well_formed doc_hello \<and> analyze_grammar doc_hello = Inr default_analysis
   \<and> next_token doc_hello (last doc_hello) = Inr None
   \<and> prev_token doc_hello (hd doc_hello) = Inr None"
proof -
  have wf: "well_formed doc_hello"
    by (simp add: doc_hello_def tok_def well_formed_def)
  have ne: "doc_hello \<noteq> []"
    by (simp add: doc_hello_def)
  have r: "analyze_grammar doc_hello = Inr default_analysis"
    by (simp add: eval_defs doc_hello_def)
  show ?thesis
    using total_on_well_formed [OF wf] wf ne r by simp
qed

end
